theory Spec2Isabelle
  imports Complex_Main "HOL-Library.Char_ord" "HOL-Library.List_Lexorder"
begin

section \<open>Errors and values\<close>

text \<open>
  The dashboard script \<^verbatim>\<open>dashboard.py\<close> is a straight-line pandas program. Exceptions
  are values of \<open>error + 'a\<close>; a missing cell (NaN, NaT) is \<open>None\<close>. Floating-point
  columns are idealised as rationals, timestamps are whole seconds. The pandas and numpy
  functions the script calls are library code; they are written out here as their
  documentation and implementation describe them, with the arguments the script passes.
\<close>

datatype error = ValueError | KeyError

text \<open>Bin edges may be infinite (\<open>float('inf')\<close>).\<close>

datatype ext = NegInf | Fin rat | PosInf

instantiation ext :: linorder
begin

fun less_eq_ext :: "ext \<Rightarrow> ext \<Rightarrow> bool" where
  "less_eq_ext NegInf y = True"
| "less_eq_ext (Fin a) NegInf = False"
| "less_eq_ext (Fin a) (Fin b) = (a \<le> b)"
| "less_eq_ext (Fin a) PosInf = True"
| "less_eq_ext PosInf PosInf = True"
| "less_eq_ext PosInf y = False"

definition less_ext :: "ext \<Rightarrow> ext \<Rightarrow> bool" where
  "less_ext x y = (x \<le> y \<and> \<not> y \<le> x)"

instance
proof
  fix x y z :: ext
  show "(x < y) = (x \<le> y \<and> \<not> y \<le> x)"
    by (simp add: less_ext_def)
  show "x \<le> x"
    by (cases x) simp_all
  show "x \<le> y \<Longrightarrow> y \<le> z \<Longrightarrow> x \<le> z"
    by (cases x; cases y; cases z) simp_all
  show "x \<le> y \<Longrightarrow> y \<le> x \<Longrightarrow> x = y"
    by (cases x; cases y) simp_all
  show "x \<le> y \<or> y \<le> x"
    by (cases x; cases y) auto
qed

end

section \<open>Data model\<close>

record order =
  order_id :: string
  customer_id :: string
  order_status :: string
  order_purchase_timestamp :: "int option"
  order_delivered_customer_date :: "int option"
  order_estimated_delivery_date :: "int option"

record payment =
  pay_order_id :: string
  payment_type :: string
  payment_value :: rat

record order_item =
  item_order_id :: string
  product_id :: string
  price :: rat

record product =
  prod_product_id :: string
  product_category_name :: "string option"
  product_category_name_english :: "string option"

text \<open>
  The products table after the left merge with the translation table. The translated
  column exists only if the translation file has it, so the table carries its column names.
\<close>

record products_frame =
  products_columns :: "string list"
  products_rows :: "product list"

text \<open>\<open>Timedelta.days\<close>: whole days, rounded towards minus infinity.\<close>

definition days :: "int \<Rightarrow> int" where
  "days delta = delta div 86400"

section \<open>The pandas binning primitives\<close>

text \<open>
  \<open>pd.qcut\<close>, \<open>pd.cut\<close>, \<open>Series.rank\<close> and \<open>Series.nunique\<close>, as the scoring of lines
  380 to 420 and the delivery bins of lines 742 to 746 use them.
\<close>

text \<open>\<open>algos.unique\<close>: the distinct values in order of first appearance.\<close>

definition unique :: "'a list \<Rightarrow> 'a list" where
  "unique xs = rev (remdups (rev xs))"

definition nunique :: "'a list \<Rightarrow> nat" where
  "nunique xs = length (unique xs)"

text \<open>
  \<open>bins.searchsorted(x, side='left')\<close> on ascending edges: the insertion point is the
  number of edges strictly below the value.
\<close>

definition searchsorted :: "'a::linorder list \<Rightarrow> 'a \<Rightarrow> nat" where
  "searchsorted bins v = length (filter (\<lambda>b. b < v) bins)"

text \<open>
  One cell of \<open>_bins_to_cuts\<close> with \<open>right=True\<close>: the bin index, moved to 1 for the
  lowest edge under \<open>include_lowest\<close>; NaN, index 0 and index \<open>len(bins)\<close> give NaN.
\<close>

definition cut_one :: "'a::linorder list \<Rightarrow> 'l list \<Rightarrow> bool \<Rightarrow> 'a option \<Rightarrow> 'l option" where
  "cut_one bins labels include_lowest v =
     (case v of
        None \<Rightarrow> None
      | Some a \<Rightarrow>
          (let ids = (if include_lowest \<and> a = hd bins then 1 else searchsorted bins a)
           in if ids = length bins \<or> ids = 0 then None else Some (labels ! (ids - 1))))"

text \<open>
  \<open>_bins_to_cuts(x, bins, labels=..., include_lowest=..., duplicates=...)\<close>: repeated
  edges raise or are dropped, and the labels must be unique and one fewer than the edges.
\<close>

definition bins_to_cuts ::
  "'a::linorder option list \<Rightarrow> 'a list \<Rightarrow> 'l list \<Rightarrow> bool \<Rightarrow> bool \<Rightarrow> error + 'l option list" where
  "bins_to_cuts x bins labels include_lowest drop_dup =
     (let unique_bins = unique bins;
          dup = (length unique_bins < length bins \<and> length bins \<noteq> 2)
      in if dup \<and> \<not> drop_dup then Inl ValueError
         else
           (let bins' = (if dup then unique_bins else bins)
            in if length (remdups labels) \<noteq> length labels then Inl ValueError
               else if int (length labels) \<noteq> int (length bins') - 1 then Inl ValueError
               else Inr (map (cut_one bins' labels include_lowest) x)))"

text \<open>\<open>pd.cut\<close> with an explicit list of edges, which must not decrease.\<close>

definition pd_cut_bins ::
  "'a::linorder option list \<Rightarrow> 'a list \<Rightarrow> 'l list \<Rightarrow> bool \<Rightarrow> error + 'l option list" where
  "pd_cut_bins x bins labels include_lowest =
     (if \<not> sorted bins then Inl ValueError
      else bins_to_cuts x bins labels include_lowest False)"

text \<open>\<open>np.linspace(start, stop, num)\<close> for \<open>num \<ge> 2\<close>, end point included.\<close>

definition linspace :: "rat \<Rightarrow> rat \<Rightarrow> nat \<Rightarrow> rat list" where
  "linspace start stop num =
     map (\<lambda>i. start + of_nat i * ((stop - start) / of_nat (num - 1))) [0..<num]"

text \<open>
  \<open>Series.quantile(q)\<close> with linear interpolation: the virtual index \<open>q * (n - 1)\<close> in
  the sorted values, interpolated between its two neighbours.
\<close>

definition quantile :: "rat list \<Rightarrow> rat \<Rightarrow> rat" where
  "quantile x q =
     (let s = sort x;
          h = q * of_nat (length s - 1);
          lo = nat \<lfloor>h\<rfloor>;
          hi = min (lo + 1) (length s - 1);
          g = h - of_nat lo
      in s ! lo + g * (s ! hi - s ! lo))"

text \<open>
  \<open>pd.qcut(x, q, labels=..., duplicates=...)\<close>: the edges are the quantiles at
  \<open>np.linspace(0, 1, q + 1)\<close>, cut with \<open>include_lowest=True\<close>. An empty column has
  only NaN edges, which fail the label count.
\<close>

definition qcut :: "rat list \<Rightarrow> nat \<Rightarrow> 'l list \<Rightarrow> bool \<Rightarrow> error + 'l option list" where
  "qcut x q labels drop_dup =
     (if x = [] then Inl ValueError
      else bins_to_cuts (map Some x) (map (quantile x) (linspace 0 1 (q + 1))) labels True drop_dup)"

text \<open>
  \<open>_nbins_to_bins\<close> with \<open>right=True\<close>: equal-width edges over the range of the data,
  the lowest edge moved down by 0.1 percent of the range so that the minimum falls in
  the first bin; a constant column gets a range of 0.1 percent around its value.
\<close>

definition nbins_to_bins :: "rat list \<Rightarrow> nat \<Rightarrow> error + rat list" where
  "nbins_to_bins x nbins =
     (if nbins < 1 then Inl ValueError
      else if x = [] then Inl ValueError
      else
        (let mn = Min (set x); mx = Max (set x)
         in if mn = mx then
              (let mn' = mn - (if mn \<noteq> 0 then (1 / 1000) * \<bar>mn\<bar> else 1 / 1000);
                   mx' = mx + (if mx \<noteq> 0 then (1 / 1000) * \<bar>mx\<bar> else 1 / 1000)
               in Inr (linspace mn' mx' (nbins + 1)))
            else
              (let bins = linspace mn mx (nbins + 1);
                   adj = (mx - mn) * (1 / 1000)
               in Inr (bins[0 := bins ! 0 - adj]))))"

text \<open>\<open>pd.cut(x, bins=nbins, labels=..., duplicates=...)\<close>.\<close>

definition pd_cut_n :: "rat list \<Rightarrow> nat \<Rightarrow> 'l list \<Rightarrow> bool \<Rightarrow> error + 'l option list" where
  "pd_cut_n x nbins labels drop_dup =
     (case nbins_to_bins x nbins of
        Inl e \<Rightarrow> Inl e
      | Inr bins \<Rightarrow> bins_to_cuts (map Some x) bins labels False drop_dup)"

text \<open>
  \<open>Series.rank(method='first')\<close>: one plus the number of rows that are smaller, or equal
  and earlier in the column.
\<close>

definition rank_first :: "'a::linorder list \<Rightarrow> rat list" where
  "rank_first x =
     map (\<lambda>i. of_nat (1 + length (filter (\<lambda>j. x ! j < x ! i \<or> (x ! j = x ! i \<and> j < i)) [0..<length x])))
       [0..<length x]"

section \<open>Date filters (tabs 1 to 4)\<close>

text \<open>
  Lines 192 to 193 (tab 1, and the same mask in tab 3) and lines 329 to 333 (tab 2, with
  the status test). A comparison with NaT is false, so an order without a purchase
  timestamp is dropped.
\<close>

definition in_window :: "int \<Rightarrow> int \<Rightarrow> order \<Rightarrow> bool" where
  "in_window start_date end_date ord =
     (case order_purchase_timestamp ord of
        None \<Rightarrow> False
      | Some t \<Rightarrow> t \<ge> start_date \<and> t \<le> end_date)"

definition filtered_orders :: "order list \<Rightarrow> int \<Rightarrow> int \<Rightarrow> order list" where
  "filtered_orders orders start_date end_date = filter (in_window start_date end_date) orders"

definition filtered_orders_rfm :: "order list \<Rightarrow> int \<Rightarrow> int \<Rightarrow> order list" where
  "filtered_orders_rfm orders start_date end_date =
     filter (\<lambda>ord. in_window start_date end_date ord \<and> order_status ord = ''delivered'') orders"

section \<open>Delivery performance (tab 4)\<close>

text \<open>
  Lines 702 to 709: delivered orders of the window that have both delivery dates. Lines
  713 to 714: the day difference, actual minus estimated. Lines 742 to 746: its bins.
\<close>

definition delivery_data :: "order list \<Rightarrow> int \<Rightarrow> int \<Rightarrow> order list" where
  "delivery_data orders start_date end_date =
     filter (\<lambda>ord. order_delivered_customer_date ord \<noteq> None \<and> order_estimated_delivery_date ord \<noteq> None)
       (filter (\<lambda>ord. in_window start_date end_date ord \<and> order_status ord = ''delivered'') orders)"

definition delivery_difference :: "order \<Rightarrow> int option" where
  "delivery_difference ord =
     (case (order_delivered_customer_date ord, order_estimated_delivery_date ord) of
        (Some actual, Some estimated) \<Rightarrow> Some (days (actual - estimated))
      | _ \<Rightarrow> None)"

definition delivery_status :: "int option list \<Rightarrow> error + string option list" where
  "delivery_status delivery_differences =
     pd_cut_bins (map (map_option (\<lambda>d. Fin (of_int d))) delivery_differences)
       [NegInf, Fin (- 3), Fin (- 1), Fin 0, Fin 2, PosInf]
       [''Very Early'', ''Early'', ''On Time'', ''Late'', ''Very Late''] False"

section \<open>RFM segmentation (tab 2)\<close>

record owp_row =
  owp_order_id :: string
  owp_customer_id :: string
  owp_purchase_timestamp :: int
  owp_payment_value :: rat

text \<open>
  Lines 336 to 341: the inner merge of the filtered orders with the payments on
  \<open>order_id\<close>. Every filtered order has a purchase timestamp, the filter having dropped
  NaT.
\<close>

definition orders_with_payments :: "order list \<Rightarrow> payment list \<Rightarrow> int \<Rightarrow> int \<Rightarrow> owp_row list" where
  "orders_with_payments orders payments start_date end_date =
     concat (map (\<lambda>ord.
       case order_purchase_timestamp ord of
         None \<Rightarrow> []
       | Some t \<Rightarrow>
           map (\<lambda>p. \<lparr>owp_order_id = order_id ord, owp_customer_id = customer_id ord,
                     owp_purchase_timestamp = t, owp_payment_value = payment_value p\<rparr>)
             (filter (\<lambda>p. pay_order_id p = order_id ord) payments))
       (filtered_orders_rfm orders start_date end_date))"

record rfm_row =
  rfm_customer_id :: string
  recency :: int
  frequency :: int
  monetary :: rat

text \<open>
  Lines 346 to 359: the three \<open>groupby('customer_id')\<close> aggregations (latest purchase,
  distinct orders, sum of payments), merged back on the key: one row per customer, in
  ascending key order.
\<close>

definition rfm_metrics :: "owp_row list \<Rightarrow> int \<Rightarrow> rfm_row list" where
  "rfm_metrics owp end_date =
     map (\<lambda>c.
       (let rows = filter (\<lambda>r. owp_customer_id r = c) owp
        in \<lparr>rfm_customer_id = c,
            recency = days (end_date - Max (set (map owp_purchase_timestamp rows))),
            frequency = int (nunique (map owp_order_id rows)),
            monetary = sum_list (map owp_payment_value rows)\<rparr>))
       (sort (remdups (map owp_customer_id owp)))"

text \<open>
  Lines 380 to 405: the three score columns. Fewer than five distinct values give the
  constant 3; otherwise the quantile cut, on the raw recency but on the ranks of
  frequency and monetary, and the equal-width cut of the raw values if that raises
  \<open>ValueError\<close>. \<open>pd.to_numeric\<close> (lines 408 to 409) leaves integer labels and NaN as
  they are.
\<close>

definition r_score_col :: "int list \<Rightarrow> error + int option list" where
  "r_score_col recency_col =
     (if nunique recency_col < 5 then Inr (map (\<lambda>_. Some 3) recency_col)
      else
        (case qcut (map of_int recency_col) 5 [5, 4, 3, 2, 1] True of
           Inl ValueError \<Rightarrow> pd_cut_n (map of_int recency_col) 5 [5, 4, 3, 2, 1] True
         | Inl e \<Rightarrow> Inl e
         | Inr scores \<Rightarrow> Inr scores))"

definition f_score_col :: "int list \<Rightarrow> error + int option list" where
  "f_score_col frequency_col =
     (if nunique frequency_col < 5 then Inr (map (\<lambda>_. Some 3) frequency_col)
      else
        (case qcut (rank_first frequency_col) 5 [1, 2, 3, 4, 5] True of
           Inl ValueError \<Rightarrow> pd_cut_n (map of_int frequency_col) 5 [1, 2, 3, 4, 5] True
         | Inl e \<Rightarrow> Inl e
         | Inr scores \<Rightarrow> Inr scores))"

definition m_score_col :: "rat list \<Rightarrow> error + int option list" where
  "m_score_col monetary_col =
     (if nunique monetary_col < 5 then Inr (map (\<lambda>_. Some 3) monetary_col)
      else
        (case qcut (rank_first monetary_col) 5 [1, 2, 3, 4, 5] True of
           Inl ValueError \<Rightarrow> pd_cut_n monetary_col 5 [1, 2, 3, 4, 5] True
         | Inl e \<Rightarrow> Inl e
         | Inr scores \<Rightarrow> Inr scores))"

text \<open>Line 412, addition of two score cells: NaN if either is NaN.\<close>

definition add_score :: "int option \<Rightarrow> int option \<Rightarrow> int option" where
  "add_score a b = (case (a, b) of (Some u, Some v) \<Rightarrow> Some (u + v) | _ \<Rightarrow> None)"

text \<open>Lines 415 to 420: the segment labels.\<close>

definition segment_col :: "int option list \<Rightarrow> error + string option list" where
  "segment_col rfm_score_col =
     pd_cut_bins rfm_score_col [0, 4, 8, 12, 15] [''Bronze'', ''Silver'', ''Gold'', ''Platinum''] True"

record rfm_record = rfm_row +
  r_score :: "int option"
  f_score :: "int option"
  m_score :: "int option"
  rfm_score :: "int option"
  segment :: "string option"

text \<open>
  What tab 2 computes (lines 343 to 420 and 550 to 551): the warning that there is not
  enough data, or the scored table.
\<close>

datatype tab2 = Warning | Rfm "rfm_record list"

definition rfm_analysis :: "order list \<Rightarrow> payment list \<Rightarrow> int \<Rightarrow> int \<Rightarrow> error + tab2" where
  "rfm_analysis orders payments start_date end_date =
     (let owp = orders_with_payments orders payments start_date end_date
      in if length owp > 0 then
           (let rfm = rfm_metrics owp end_date
            in case r_score_col (map recency rfm) of
                 Inl e \<Rightarrow> Inl e
               | Inr rs \<Rightarrow>
                   (case f_score_col (map frequency rfm) of
                      Inl e \<Rightarrow> Inl e
                    | Inr fs \<Rightarrow>
                        (case m_score_col (map monetary rfm) of
                           Inl e \<Rightarrow> Inl e
                         | Inr ms \<Rightarrow>
                             (let total = map (\<lambda>i. add_score (add_score (rs ! i) (fs ! i)) (ms ! i))
                                            [0..<length rfm]
                              in case segment_col total of
                                   Inl e \<Rightarrow> Inl e
                                 | Inr seg \<Rightarrow>
                                     Inr (Rfm (map (\<lambda>i.
                                       \<lparr>rfm_customer_id = rfm_customer_id (rfm ! i),
                                        recency = recency (rfm ! i),
                                        frequency = frequency (rfm ! i),
                                        monetary = monetary (rfm ! i),
                                        r_score = rs ! i, f_score = fs ! i, m_score = ms ! i,
                                        rfm_score = total ! i, segment = seg ! i\<rparr>)
                                       [0..<length rfm]))))))
         else Inr Warning)"

text \<open>The rows of the RFM table that tab 2 ends up with.\<close>

fun rfm_rows :: "tab2 \<Rightarrow> rfm_record list" where
  "rfm_rows Warning = []"
| "rfm_rows (Rfm recs) = recs"

section \<open>Sales and categories (tab 1)\<close>

text \<open>\<open>Series.dropna()\<close>.\<close>

definition dropna :: "'a option list \<Rightarrow> 'a list" where
  "dropna xs = concat (map (\<lambda>v. case v of None \<Rightarrow> [] | Some a \<Rightarrow> [a]) xs)"

text \<open>
  Lines 160 to 168, the sidebar's category choices: the translated names if the products
  table has that column, the native names otherwise; the first choice stands for no
  category.
\<close>

definition categories :: "products_frame \<Rightarrow> string list" where
  "categories products =
     (if ''product_category_name_english'' \<in> set (products_columns products)
      then ''All Categories'' # sort (unique (dropna (map product_category_name_english (products_rows products))))
      else ''All Categories'' # sort (unique (dropna (map product_category_name (products_rows products)))))"

definition selected_category :: "string \<Rightarrow> string option" where
  "selected_category choice = (if choice = ''All Categories'' then None else Some choice)"

text \<open>Lines 196 to 201: the inner merge of the filtered orders' ids with the order items.\<close>

definition filtered_items :: "order list \<Rightarrow> order_item list \<Rightarrow> int \<Rightarrow> int \<Rightarrow> order_item list" where
  "filtered_items orders order_items start_date end_date =
     concat (map (\<lambda>ord. filter (\<lambda>it. item_order_id it = order_id ord) order_items)
       (filtered_orders orders start_date end_date))"

text \<open>
  Lines 204 to 206, the category filter of tab 1. It reads the translated column whatever the sidebar
  offered; a missing column is a \<open>KeyError\<close>, and a NaN translation equals no category.
  An empty string is falsy, so it filters nothing.
\<close>

definition category_filter :: "order_item list \<Rightarrow> products_frame \<Rightarrow> string option \<Rightarrow> error + order_item list" where
  "category_filter items products category =
     (case category of
        None \<Rightarrow> Inr items
      | Some c \<Rightarrow>
          if c = [] then Inr items
          else if ''product_category_name_english'' \<notin> set (products_columns products) then Inl KeyError
          else
            (let product_ids = unique (map prod_product_id
                   (filter (\<lambda>p. product_category_name_english p = Some c) (products_rows products)))
             in Inr (filter (\<lambda>it. product_id it \<in> set product_ids) items)))"

text \<open>Lines 212 to 220: the average order value and its guard.\<close>

definition avg_order_value :: "order_item list \<Rightarrow> rat" where
  "avg_order_value items =
     (let total_orders = nunique (map item_order_id items);
          total_sales = sum_list (map price items)
      in if total_orders > 0 then total_sales / of_nat total_orders else 0)"

section \<open>Payment methods (tab 3)\<close>

text \<open>
  Division of two float64 cells: a zero divisor gives NaN for a zero dividend and a
  signed infinity otherwise, without raising.
\<close>

definition float_div :: "rat \<Rightarrow> rat \<Rightarrow> ext option" where
  "float_div a b =
     (if b \<noteq> 0 then Some (Fin (a / b))
      else if a = 0 then None
      else if a > 0 then Some PosInf else Some NegInf)"

definition times_100 :: "ext option \<Rightarrow> ext option" where
  "times_100 v = (case v of Some (Fin a) \<Rightarrow> Some (Fin (a * 100)) | other \<Rightarrow> other)"

text \<open>
  Lines 558 to 579: the payments of the window's orders, summed and counted by payment
  type, and each type's share of the grand total in percent.
\<close>

definition payment_data :: "order list \<Rightarrow> payment list \<Rightarrow> int \<Rightarrow> int \<Rightarrow> payment list" where
  "payment_data orders payments start_date end_date =
     concat (map (\<lambda>ord. filter (\<lambda>p. pay_order_id p = order_id ord) payments)
       (filtered_orders orders start_date end_date))"

record payment_summary_row =
  summary_payment_type :: string
  total_value :: rat
  order_count :: nat
  percentage :: "ext option"

definition payment_summary :: "payment list \<Rightarrow> payment_summary_row list" where
  "payment_summary pays =
     (let groups = map (\<lambda>t.
            (let rows = filter (\<lambda>p. payment_type p = t) pays
             in (t, sum_list (map payment_value rows), nunique (map pay_order_id rows))))
            (sort (remdups (map payment_type pays)));
          grand_total = sum_list (map (\<lambda>(t, v, n). v) groups)
      in map (\<lambda>(t, v, n).
           \<lparr>summary_payment_type = t, total_value = v, order_count = n,
            percentage = times_100 (float_div v grand_total)\<rparr>) groups)"

definition segment_of :: "int \<Rightarrow> string option" where
  "segment_of c =
     (if 0 \<le> c \<and> c \<le> 4 then Some ''Bronze''
      else if 4 < c \<and> c \<le> 8 then Some ''Silver''
      else if 8 < c \<and> c \<le> 12 then Some ''Gold''
      else if 12 < c \<and> c \<le> 15 then Some ''Platinum'' else None)"

section \<open>Sample rows\<close>

text \<open>Rows for the worked scenarios: a delivered order, and a credit-card payment.\<close>

abbreviation delivered_order :: "string \<Rightarrow> string \<Rightarrow> int \<Rightarrow> order" where
  "delivered_order oid cid t \<equiv>
     \<lparr>order_id = oid, customer_id = cid, order_status = ''delivered'',
      order_purchase_timestamp = Some t, order_delivered_customer_date = None,
      order_estimated_delivery_date = None\<rparr>"

abbreviation card_payment :: "string \<Rightarrow> rat \<Rightarrow> payment" where
  "card_payment oid v \<equiv> \<lparr>pay_order_id = oid, payment_type = ''credit_card'', payment_value = v\<rparr>"

text \<open>Five customers with one order each, a day apart, paying 10 to 50.\<close>

abbreviation five_orders :: "order list" where
  "five_orders \<equiv>
     [delivered_order ''o1'' ''a'' 0, delivered_order ''o2'' ''b'' 86400,
      delivered_order ''o3'' ''c'' 172800, delivered_order ''o4'' ''d'' 259200,
      delivered_order ''o5'' ''e'' 345600]"

abbreviation five_payments :: "payment list" where
  "five_payments \<equiv>
     [card_payment ''o1'' 10, card_payment ''o2'' 20, card_payment ''o3'' 30,
      card_payment ''o4'' 40, card_payment ''o5'' 50]"

text \<open>A products table whose translation file had no translated column.\<close>

abbreviation untranslated_products :: products_frame where
  "untranslated_products \<equiv>
     \<lparr>products_columns = [''product_id'', ''product_category_name''],
      products_rows = [\<lparr>prod_product_id = ''p1'', product_category_name = Some ''moveis'',
                         product_category_name_english = None\<rparr>]\<rparr>"

section \<open>Properties of the binning primitives\<close>

lemma last_remdups: "xs \<noteq> [] \<Longrightarrow> last (remdups xs) = last xs"
  by (induction xs) (auto simp: last_in_set)

lemma set_unique: "set (unique xs) = set xs"
  by (simp add: unique_def)

lemma hd_unique: "xs \<noteq> [] \<Longrightarrow> hd (unique xs) = hd xs"
  by (simp add: unique_def hd_rev last_remdups last_rev)

lemma nunique_card: "nunique xs = card (set xs)"
  by (simp add: nunique_def unique_def length_remdups_card_conv)

lemma unique_distinct: "distinct xs \<Longrightarrow> unique xs = xs"
  by (simp add: unique_def distinct_remdups_id)

lemma bins_to_cuts_InrD:
  assumes "bins_to_cuts x bins labels il dd = Inr ys" and "bins \<noteq> []"
  shows "\<exists>bins'. set bins' = set bins \<and> hd bins' = hd bins
           \<and> length bins' = length labels + 1 \<and> ys = map (cut_one bins' labels il) x"
proof -
  define bins' where "bins' = (if length (unique bins) < length bins \<and> length bins \<noteq> 2 then unique bins else bins)"
  have "set bins' = set bins" "hd bins' = hd bins"
    using assms(2) by (auto simp: bins'_def set_unique hd_unique)
  moreover have "int (length labels) = int (length bins') - 1 \<and> ys = map (cut_one bins' labels il) x"
    using assms(1) unfolding bins_to_cuts_def Let_def bins'_def by (auto split: if_splits)
  ultimately show ?thesis by (intro exI[of _ bins']) auto
qed

lemma cut_one_label:
  assumes len: "length bins = length labels + 1" and ne: "labels \<noteq> []"
    and low: "(il \<and> v = hd bins) \<or> (\<exists>b\<in>set bins. b < v)"
    and high: "\<exists>b\<in>set bins. v \<le> b"
  shows "\<exists>i<length labels. cut_one bins labels il (Some v) = Some (labels ! i)"
proof -
  define ids where "ids = (if il \<and> v = hd bins then 1 else searchsorted bins v)"
  from high obtain t where t: "t \<in> set bins" "\<not> t < v" by auto
  have up: "searchsorted bins v < length bins"
    unfolding searchsorted_def using t by (intro length_filter_less[where x = t]) auto
  have "1 \<le> ids"
  proof (cases "il \<and> v = hd bins")
    case True then show ?thesis by (simp add: ids_def)
  next
    case False
    then obtain b where "b \<in> set bins" "b < v" using low by auto
    then have "filter (\<lambda>b. b < v) bins \<noteq> []" by (auto simp: filter_empty_conv)
    then show ?thesis using False by (simp add: ids_def searchsorted_def Suc_le_eq)
  qed
  moreover have "ids < length bins"
    using up len ne by (auto simp: ids_def)
  ultimately have "ids - 1 < length labels" "cut_one bins labels il (Some v) = Some (labels ! (ids - 1))"
    using len by (auto simp: cut_one_def ids_def Let_def)
  then show ?thesis by blast
qed

lemma quantile_zero: "quantile x 0 = sort x ! 0"
  by (simp add: quantile_def Let_def)

lemma quantile_one: "x \<noteq> [] \<Longrightarrow> quantile x 1 = sort x ! (length x - 1)"
  by (simp add: quantile_def Let_def)

lemma sort_bounds:
  assumes "v \<in> set x"
  shows "sort x ! 0 \<le> v" and "v \<le> sort x ! (length x - 1)"
proof -
  from assms obtain k where k: "k < length (sort x)" "sort x ! k = v"
    by (metis in_set_conv_nth set_sort)
  have s: "sorted (sort x)" by simp
  show "sort x ! 0 \<le> v" using sorted_nth_mono[OF s, of 0 k] k by simp
  show "v \<le> sort x ! (length x - 1)" using sorted_nth_mono[OF s, of k "length x - 1"] k by simp
qed

lemma linspace_length: "length (linspace a b n) = n"
  by (simp add: linspace_def)

lemma linspace_hd: "0 < n \<Longrightarrow> hd (linspace a b n) = a"
  by (simp add: linspace_def hd_map upt_conv_Cons)

lemma linspace_nth: "i < n \<Longrightarrow> linspace a b n ! i = a + of_nat i * ((b - a) / of_nat (n - 1))"
  by (simp add: linspace_def)

lemma linspace_last: "1 \<le> q \<Longrightarrow> linspace a b (q + 1) ! q = b"
  by (simp add: linspace_nth)

lemma qcut_Inr_labels:
  assumes "qcut x q labels dd = Inr ys" and "1 \<le> q" and "labels \<noteq> []"
  shows "length ys = length x \<and> (\<forall>y\<in>set ys. \<exists>i<length labels. y = Some (labels ! i))"
proof -
  let ?bins = "map (quantile x) (linspace 0 1 (q + 1))"
  from assms(1) have ne: "x \<noteq> []" and b: "bins_to_cuts (map Some x) ?bins labels True dd = Inr ys"
    by (auto simp: qcut_def split: if_splits)
  have bne: "?bins \<noteq> []" by (simp add: linspace_def)
  from bins_to_cuts_InrD[OF b bne] obtain bins' where
    bs: "set bins' = set ?bins" "hd bins' = hd ?bins" "length bins' = length labels + 1"
    "ys = map (cut_one bins' labels True) (map Some x)" by blast
  have hd: "hd ?bins = sort x ! 0"
    using bne by (simp add: hd_map linspace_hd quantile_zero linspace_def)
  have "q < length ?bins" by (simp add: linspace_length)
  then have "?bins ! q \<in> set ?bins" by (rule nth_mem)
  moreover have "?bins ! q = quantile x 1"
    using linspace_last[OF assms(2), of 0 1] by (simp add: linspace_length del: One_nat_def)
  ultimately have top: "sort x ! (length x - 1) \<in> set ?bins"
    using quantile_one[OF ne] by simp
  have "\<exists>i<length labels. cut_one bins' labels True (Some v) = Some (labels ! i)" if "v \<in> set x" for v
  proof (rule cut_one_label[OF bs(3) assms(3)])
    show "(True \<and> v = hd bins') \<or> (\<exists>b\<in>set bins'. b < v)"
    proof (cases "v = hd bins'")
      case True then show ?thesis by simp
    next
      case False
      then have "sort x ! 0 < v" using sort_bounds(1)[OF that] bs(2) hd by simp
      moreover have "hd ?bins \<in> set bins'" using bne bs(1) hd_in_set by blast
      ultimately show ?thesis using hd by auto
    qed
    show "\<exists>b\<in>set bins'. v \<le> b" using top bs(1) sort_bounds(2)[OF that] by blast
  qed
  then show ?thesis using bs(4) by auto
qed


lemma bins_to_cuts_distinct:
  assumes "distinct bins" and "distinct labels" and "length bins = length labels + 1"
  shows "bins_to_cuts x bins labels il dd = Inr (map (cut_one bins labels il) x)"
  using assms by (simp add: bins_to_cuts_def unique_distinct distinct_remdups_id)

lemma equal_width_bins:
  fixes mn mx :: rat
  assumes "mn < mx" and "1 \<le> n"
  defines "bins \<equiv> (linspace mn mx (n + 1))[0 := linspace mn mx (n + 1) ! 0 - (mx - mn) * (1 / 1000)]"
  shows "length bins = n + 1" and "distinct bins" and "bins ! 0 < mn" and "bins ! n = mx"
proof -
  define d where "d = (mx - mn) / of_nat n"
  have d: "0 < d" using assms(1,2) by (simp add: d_def)
  show len: "length bins = n + 1" by (simp add: bins_def linspace_length)
  have nth: "bins ! i = (if i = 0 then mn - (mx - mn) * (1 / 1000) else mn + of_nat i * d)"
    if "i < n + 1" for i
    using that by (simp add: bins_def linspace_length linspace_nth nth_list_update d_def)
  show "bins ! 0 < mn" using assms(1) by (simp add: nth)
  show "bins ! n = mx" using assms(2) by (simp add: nth d_def)
  have "bins ! i < bins ! j" if "i < j" "j < n + 1" for i j
  proof (cases "i = 0")
    case True
    have "0 \<le> of_nat j * d" using d by simp
    moreover have "0 < (mx - mn) * (1 / 1000)" using assms(1) by simp
    ultimately have "mn - (mx - mn) * (1 / 1000) < mn + of_nat j * d" by linarith
    then show ?thesis using that True by (simp only: nth) simp
  next
    case False
    have "(of_nat i :: rat) < of_nat j" using that by simp
    then have "of_nat i * d < of_nat j * d" using d by (rule mult_strict_right_mono)
    then show ?thesis using that False by (simp add: nth)
  qed
  then have "sorted_wrt (<) bins" by (simp add: sorted_wrt_iff_nth_less len)
  then show "distinct bins" by (simp add: strict_sorted_iff)
qed

lemma pd_cut_n_spread:
  assumes spread: "Min (set x) \<noteq> Max (set x)" and ne: "x \<noteq> []"
    and lab: "distinct labels" "length labels = n" "1 \<le> n"
  shows "\<exists>ys. pd_cut_n x n labels dd = Inr ys \<and> length ys = length x
           \<and> (\<forall>y\<in>set ys. \<exists>i<length labels. y = Some (labels ! i))"
proof -
  let ?mn = "Min (set x)" and ?mx = "Max (set x)"
  define bins where "bins = (linspace ?mn ?mx (n + 1))[0 := linspace ?mn ?mx (n + 1) ! 0 - (?mx - ?mn) * (1 / 1000)]"
  have "?mn \<le> ?mx" using ne by (simp add: Min_le_iff)
  then have lt: "?mn < ?mx" using spread by simp
  note b = equal_width_bins[OF lt lab(3), folded bins_def]
  have nb: "nbins_to_bins x n = Inr bins"
    using spread ne lab(3) by (simp add: nbins_to_bins_def Let_def bins_def)
  have cut: "pd_cut_n x n labels dd = Inr (map (cut_one bins labels False) (map Some x))"
    using bins_to_cuts_distinct[OF b(2) lab(1), of "map Some x" False dd] b(1) lab(2)
    by (simp add: pd_cut_n_def nb)
  have lne: "labels \<noteq> []" using lab(2,3) by auto
  have "\<exists>i<length labels. cut_one bins labels False (Some v) = Some (labels ! i)" if "v \<in> set x" for v
  proof (rule cut_one_label)
    show "length bins = length labels + 1" using b(1) lab(2) by simp
    show "labels \<noteq> []" by (rule lne)
    have "bins ! 0 \<in> set bins" using b(1) by (intro nth_mem) simp
    moreover have "bins ! 0 < v" using b(3) that by (meson List.finite_set Min_le less_le_trans)
    ultimately show "(False \<and> v = hd bins) \<or> (\<exists>b\<in>set bins. b < v)" by blast
    have "bins ! n \<in> set bins" using b(1) by (intro nth_mem) simp
    moreover have "v \<le> bins ! n" using b(4) that by simp
    ultimately show "\<exists>b\<in>set bins. v \<le> b" by blast
  qed
  then show ?thesis using cut by auto
qed

lemma nunique_spread:
  assumes "2 \<le> nunique x"
  shows "x \<noteq> []" and "Min (set x) \<noteq> Max (set x)"
proof -
  show ne: "x \<noteq> []" using assms by (auto simp: nunique_card)
  show "Min (set x) \<noteq> Max (set x)"
  proof
    assume eq: "Min (set x) = Max (set x)"
    have "v = Min (set x)" if "v \<in> set x" for v
      using that eq by (metis List.finite_set Max_ge Min_le order_antisym)
    then have "set x \<subseteq> {Min (set x)}" by auto
    then have "card (set x) \<le> 1" by (metis card_mono card.empty card_insert_disjoint empty_iff finite.emptyI finite.insertI One_nat_def)
    then show False using assms by (simp add: nunique_card)
  qed
qed

lemma qcut_error: "qcut x q labels dd = Inl e \<Longrightarrow> e = ValueError"
  by (auto simp: qcut_def bins_to_cuts_def Let_def split: if_splits)


lemma nunique_map_inj: "inj f \<Longrightarrow> nunique (map f xs) = nunique xs"
  by (metis nunique_card card_image inj_on_subset set_map subset_UNIV)

lemma score_fallback:
  assumes "\<not> nunique metric < 5" and "inj f" and "distinct labels" and "length labels = 5"
  shows "\<exists>ys. pd_cut_n (map f metric) 5 labels dd = Inr ys \<and> length ys = length metric
           \<and> (\<forall>y\<in>set ys. \<exists>i<length labels. y = Some (labels ! i))"
proof -
  have "2 \<le> nunique (map f metric)" using assms(1,2) by (simp add: nunique_map_inj)
  from nunique_spread[OF this] pd_cut_n_spread[of "map f metric" labels 5 dd] assms(3,4)
  show ?thesis by simp
qed

lemma score_quantile_or_width:
  assumes "\<not> nunique metric < 5" and "inj f" and "distinct labels" and "length labels = 5"
  shows "\<exists>ys. (case qcut x 5 labels True of
                 Inl ValueError \<Rightarrow> pd_cut_n (map f metric) 5 labels True
               | Inl e \<Rightarrow> Inl e
               | Inr scores \<Rightarrow> Inr scores) = Inr ys
           \<and> (length x = length metric \<longrightarrow> length ys = length metric)
           \<and> (\<forall>y\<in>set ys. \<exists>i<length labels. y = Some (labels ! i))"
proof (cases "qcut x 5 labels True")
  case (Inl e)
  then have "e = ValueError" by (rule qcut_error)
  then show ?thesis using Inl score_fallback[OF assms, of True] by auto
next
  case (Inr ys)
  have "labels \<noteq> []" using assms(4) by auto
  from qcut_Inr_labels[OF Inr _ this] show ?thesis using Inr by auto
qed

lemma score_in_range:
  assumes "\<forall>y\<in>set ys. \<exists>i<length labels. y = Some (labels ! i)"
    and "\<forall>v\<in>set labels. 1 \<le> v \<and> v \<le> (5::int)"
  shows "\<forall>y\<in>set ys. \<exists>v. y = Some v \<and> 1 \<le> v \<and> v \<le> 5"
proof
  fix y assume "y \<in> set ys"
  with assms(1) obtain i where i: "i < length labels" "y = Some (labels ! i)" by blast
  from i(1) have "labels ! i \<in> set labels" by (rule nth_mem)
  with assms(2) i(2) show "\<exists>v. y = Some v \<and> 1 \<le> v \<and> v \<le> 5" by blast
qed

lemma rank_first_length: "length (rank_first x) = length x"
  by (simp add: rank_first_def)

lemma r_score_col_total:
  "\<exists>rs. r_score_col c = Inr rs \<and> length rs = length c
     \<and> (\<forall>y\<in>set rs. \<exists>v. y = Some v \<and> 1 \<le> v \<and> v \<le> 5)
     \<and> (nunique c < 5 \<longrightarrow> (\<forall>y\<in>set rs. y = Some 3))"
proof (cases "nunique c < 5")
  case True
  then have "r_score_col c = Inr (map (\<lambda>_. Some 3) c)" by (simp add: r_score_col_def)
  then show ?thesis by auto
next
  case False
  have "inj (of_int :: int \<Rightarrow> rat)" by (simp add: inj_on_def)
  from score_quantile_or_width[OF False this, of "[5, 4, 3, 2, 1 :: int]" "map of_int c"]
  obtain ys where ys: "(case qcut (map of_int c) 5 [5, 4, 3, 2, 1 :: int] True of
                 Inl ValueError \<Rightarrow> pd_cut_n (map of_int c) 5 [5, 4, 3, 2, 1] True
               | Inl e \<Rightarrow> Inl e
               | Inr scores \<Rightarrow> Inr scores) = Inr ys"
      "length ys = length c"
      "\<forall>y\<in>set ys. \<exists>i<length [5, 4, 3, 2, 1 :: int]. y = Some ([5, 4, 3, 2, 1] ! i)"
    by auto
  have "r_score_col c = Inr ys" using False ys(1) by (simp add: r_score_col_def)
  moreover have "\<forall>y\<in>set ys. \<exists>v. y = Some v \<and> 1 \<le> v \<and> v \<le> 5"
    by (rule score_in_range[OF ys(3)]) simp
  ultimately show ?thesis using ys(2) False by blast
qed

lemma f_score_col_total:
  "\<exists>fs. f_score_col c = Inr fs \<and> length fs = length c
     \<and> (\<forall>y\<in>set fs. \<exists>v. y = Some v \<and> 1 \<le> v \<and> v \<le> 5)
     \<and> (nunique c < 5 \<longrightarrow> (\<forall>y\<in>set fs. y = Some 3))"
proof (cases "nunique c < 5")
  case True
  then have "f_score_col c = Inr (map (\<lambda>_. Some 3) c)" by (simp add: f_score_col_def)
  then show ?thesis by auto
next
  case False
  have "inj (of_int :: int \<Rightarrow> rat)" by (simp add: inj_on_def)
  from score_quantile_or_width[OF False this, of "[1, 2, 3, 4, 5 :: int]" "rank_first c"]
  obtain ys where ys: "(case qcut (rank_first c) 5 [1, 2, 3, 4, 5 :: int] True of
                 Inl ValueError \<Rightarrow> pd_cut_n (map of_int c) 5 [1, 2, 3, 4, 5] True
               | Inl e \<Rightarrow> Inl e
               | Inr scores \<Rightarrow> Inr scores) = Inr ys"
      "length ys = length c"
      "\<forall>y\<in>set ys. \<exists>i<length [1, 2, 3, 4, 5 :: int]. y = Some ([1, 2, 3, 4, 5] ! i)"
    by (auto simp: rank_first_length)
  have "f_score_col c = Inr ys" using False ys(1) by (simp add: f_score_col_def)
  moreover have "\<forall>y\<in>set ys. \<exists>v. y = Some v \<and> 1 \<le> v \<and> v \<le> 5"
    by (rule score_in_range[OF ys(3)]) simp
  ultimately show ?thesis using ys(2) False by blast
qed

lemma m_score_col_total:
  "\<exists>ms. m_score_col c = Inr ms \<and> length ms = length c
     \<and> (\<forall>y\<in>set ms. \<exists>v. y = Some v \<and> 1 \<le> v \<and> v \<le> 5)
     \<and> (nunique c < 5 \<longrightarrow> (\<forall>y\<in>set ms. y = Some 3))"
proof (cases "nunique c < 5")
  case True
  then have "m_score_col c = Inr (map (\<lambda>_. Some 3) c)" by (simp add: m_score_col_def)
  then show ?thesis by auto
next
  case False
  have "inj (\<lambda>v :: rat. v)" by (simp add: inj_on_def)
  from score_quantile_or_width[OF False this, of "[1, 2, 3, 4, 5 :: int]" "rank_first c", unfolded list.map_ident]
  obtain ys where ys: "(case qcut (rank_first c) 5 [1, 2, 3, 4, 5 :: int] True of
                 Inl ValueError \<Rightarrow> pd_cut_n c 5 [1, 2, 3, 4, 5] True
               | Inl e \<Rightarrow> Inl e
               | Inr scores \<Rightarrow> Inr scores) = Inr ys"
      "length ys = length c"
      "\<forall>y\<in>set ys. \<exists>i<length [1, 2, 3, 4, 5 :: int]. y = Some ([1, 2, 3, 4, 5] ! i)"
    by (auto simp: rank_first_length)
  have "m_score_col c = Inr ys" using False ys(1) by (simp add: m_score_col_def)
  moreover have "\<forall>y\<in>set ys. \<exists>v. y = Some v \<and> 1 \<le> v \<and> v \<le> 5"
    by (rule score_in_range[OF ys(3)]) simp
  ultimately show ?thesis using ys(2) False by blast
qed


lemma segment_col_eq:
  "segment_col cs = Inr (map (\<lambda>v. case v of None \<Rightarrow> None | Some c \<Rightarrow> segment_of c) cs)"
  by (auto simp: segment_col_def pd_cut_bins_def bins_to_cuts_def unique_def cut_one_def
        searchsorted_def segment_of_def Let_def split: option.splits)

lemma rfm_analysis_empty:
  "orders_with_payments orders payments s e = [] \<Longrightarrow> rfm_analysis orders payments s e = Inr Warning"
  by (simp add: rfm_analysis_def)

lemma rfm_analysis_scored:
  assumes ne: "orders_with_payments orders payments s e \<noteq> []"
  defines "rfm \<equiv> rfm_metrics (orders_with_payments orders payments s e) e"
  shows "\<exists>recs. rfm_analysis orders payments s e = Inr (Rfm recs)
           \<and> length recs = length rfm
           \<and> (\<forall>i<length rfm.
                 rfm_customer_id (recs ! i) = rfm_customer_id (rfm ! i)
               \<and> recency (recs ! i) = recency (rfm ! i)
               \<and> frequency (recs ! i) = frequency (rfm ! i)
               \<and> monetary (recs ! i) = monetary (rfm ! i)
               \<and> (\<exists>a b c. r_score (recs ! i) = Some a \<and> f_score (recs ! i) = Some b
                      \<and> m_score (recs ! i) = Some c
                      \<and> 1 \<le> a \<and> a \<le> 5 \<and> 1 \<le> b \<and> b \<le> 5 \<and> 1 \<le> c \<and> c \<le> 5
                      \<and> (nunique (map recency rfm) < 5 \<longrightarrow> a = 3)
                      \<and> (nunique (map frequency rfm) < 5 \<longrightarrow> b = 3)
                      \<and> (nunique (map monetary rfm) < 5 \<longrightarrow> c = 3)
                      \<and> rfm_score (recs ! i) = Some (a + b + c)
                      \<and> segment (recs ! i) = segment_of (a + b + c)))"
proof -
  obtain rs where rs: "r_score_col (map recency rfm) = Inr rs" "length rs = length rfm"
      "\<forall>y\<in>set rs. \<exists>v. y = Some v \<and> 1 \<le> v \<and> v \<le> 5"
      "nunique (map recency rfm) < 5 \<longrightarrow> (\<forall>y\<in>set rs. y = Some 3)"
    using r_score_col_total[of "map recency rfm"] by auto
  obtain fs where fs: "f_score_col (map frequency rfm) = Inr fs" "length fs = length rfm"
      "\<forall>y\<in>set fs. \<exists>v. y = Some v \<and> 1 \<le> v \<and> v \<le> 5"
      "nunique (map frequency rfm) < 5 \<longrightarrow> (\<forall>y\<in>set fs. y = Some 3)"
    using f_score_col_total[of "map frequency rfm"] by auto
  obtain ms where ms: "m_score_col (map monetary rfm) = Inr ms" "length ms = length rfm"
      "\<forall>y\<in>set ms. \<exists>v. y = Some v \<and> 1 \<le> v \<and> v \<le> 5"
      "nunique (map monetary rfm) < 5 \<longrightarrow> (\<forall>y\<in>set ms. y = Some 3)"
    using m_score_col_total[of "map monetary rfm"] by auto
  define total where "total = map (\<lambda>i. add_score (add_score (rs ! i) (fs ! i)) (ms ! i)) [0..<length rfm]"
  define seg where "seg = map (\<lambda>v. case v of None \<Rightarrow> None | Some c \<Rightarrow> segment_of c) total"
  define recs where "recs = map (\<lambda>i.
       \<lparr>rfm_customer_id = rfm_customer_id (rfm ! i), recency = recency (rfm ! i),
        frequency = frequency (rfm ! i), monetary = monetary (rfm ! i),
        r_score = rs ! i, f_score = fs ! i, m_score = ms ! i,
        rfm_score = total ! i, segment = seg ! i\<rparr>) [0..<length rfm]"
  have run: "rfm_analysis orders payments s e = Inr (Rfm recs)"
    using ne rs(1) fs(1) ms(1)
    by (simp add: rfm_analysis_def Let_def rfm_def[symmetric] total_def[symmetric]
          segment_col_eq seg_def[symmetric] recs_def)
  have len: "length recs = length rfm" by (simp add: recs_def)
  have row: "\<exists>a b c. r_score (recs ! i) = Some a \<and> f_score (recs ! i) = Some b
                      \<and> m_score (recs ! i) = Some c
                      \<and> 1 \<le> a \<and> a \<le> 5 \<and> 1 \<le> b \<and> b \<le> 5 \<and> 1 \<le> c \<and> c \<le> 5
                      \<and> (nunique (map recency rfm) < 5 \<longrightarrow> a = 3)
                      \<and> (nunique (map frequency rfm) < 5 \<longrightarrow> b = 3)
                      \<and> (nunique (map monetary rfm) < 5 \<longrightarrow> c = 3)
                      \<and> rfm_score (recs ! i) = Some (a + b + c)
                      \<and> segment (recs ! i) = segment_of (a + b + c)"
    if i: "i < length rfm" for i
  proof -
    have "rs ! i \<in> set rs" "fs ! i \<in> set fs" "ms ! i \<in> set ms"
      using i rs(2) fs(2) ms(2) by simp_all
    note mem = this
    from rs(3) mem(1) obtain a where a: "rs ! i = Some a" "1 \<le> a" "a \<le> 5" by blast
    from fs(3) mem(2) obtain b where b: "fs ! i = Some b" "1 \<le> b" "b \<le> 5" by blast
    from ms(3) mem(3) obtain c where c: "ms ! i = Some c" "1 \<le> c" "c \<le> 5" by blast
    have a3: "nunique (map recency rfm) < 5 \<longrightarrow> a = 3" using rs(4) mem(1) a(1) by auto
    have b3: "nunique (map frequency rfm) < 5 \<longrightarrow> b = 3" using fs(4) mem(2) b(1) by auto
    have c3: "nunique (map monetary rfm) < 5 \<longrightarrow> c = 3" using ms(4) mem(3) c(1) by auto
    have t: "total ! i = Some (a + b + c)"
      using i a(1) b(1) c(1) by (simp add: total_def add_score_def)
    have "seg ! i = segment_of (a + b + c)"
      using i t by (simp add: seg_def total_def)
    then show ?thesis using i a b c a3 b3 c3 t by (simp add: recs_def)
  qed
  have "rfm_customer_id (recs ! i) = rfm_customer_id (rfm ! i) \<and> recency (recs ! i) = recency (rfm ! i)
        \<and> frequency (recs ! i) = frequency (rfm ! i) \<and> monetary (recs ! i) = monetary (rfm ! i)"
    if "i < length rfm" for i using that by (simp add: recs_def)
  with run len row show ?thesis by blast
qed


lemma length_filter_upt: "length (filter P [0..<n]) = card {j. j < n \<and> P j}"
proof -
  have "distinct (filter P [0..<n])" by simp
  then have "length (filter P [0..<n]) = card (set (filter P [0..<n]))"
    by (simp only: distinct_card)
  also have "set (filter P [0..<n]) = {j. j < n \<and> P j}" by auto
  finally show ?thesis .
qed

lemma rank_first_nth:
  "i < length x \<Longrightarrow> rank_first x ! i =
     of_nat (1 + card {j. j < length x \<and> (x ! j < x ! i \<or> (x ! j = x ! i \<and> j < i))})"
  by (simp add: rank_first_def length_filter_upt)

lemma rank_first_sorted:
  fixes x :: "'a::linorder list"
  shows "sort (rank_first x) = map of_nat [1..<Suc (length x)]"
proof -
  let ?n = "length x"
  define before where "before i = {j. j < ?n \<and> (x ! j < x ! i \<or> (x ! j = x ! i \<and> j < i))}" for i
  have fin: "finite (before i)" for i by (simp add: before_def)
  have nth: "rank_first x ! i = of_nat (1 + card (before i))" if "i < ?n" for i
    using that by (simp add: rank_first_nth before_def)
  have mono: "card (before i) < card (before k)"
    if "i < ?n" and "x ! i < x ! k \<or> (x ! i = x ! k \<and> i < k)" for i k
  proof (rule psubset_card_mono[OF fin])
    have "before i \<subseteq> before k" using that(2) by (auto simp: before_def)
    moreover have "i \<in> before k" using that by (simp add: before_def)
    moreover have "i \<notin> before i" by (simp add: before_def)
    ultimately show "before i \<subset> before k" by blast
  qed
  have neq: "card (before i) \<noteq> card (before k)" if "i < ?n" "k < ?n" "i \<noteq> k" for i k
  proof -
    have "(x ! i < x ! k \<or> (x ! i = x ! k \<and> i < k)) \<or> (x ! k < x ! i \<or> (x ! k = x ! i \<and> k < i))"
      using that(3) by auto
    then show ?thesis using mono[OF that(1)] mono[OF that(2)] by (metis less_irrefl)
  qed
  have bound: "card (before i) < ?n" if "i < ?n" for i
  proof -
    have "before i \<subseteq> {0..<?n} - {i}" by (auto simp: before_def)
    then have "card (before i) \<le> card ({0..<?n} - {i})" by (intro card_mono) simp_all
    also have "\<dots> = ?n - 1" using that by simp
    finally show ?thesis using that by simp
  qed
  have dist: "distinct (rank_first x)"
    unfolding distinct_conv_nth
  proof (intro allI impI)
    fix i k assume "i < length (rank_first x)" "k < length (rank_first x)" "i \<noteq> k"
    then have ik: "i < ?n" "k < ?n" "i \<noteq> k" by (simp_all add: rank_first_def)
    show "rank_first x ! i \<noteq> rank_first x ! k"
      using neq[OF ik] by (simp add: nth[OF ik(1)] nth[OF ik(2)])
  qed
  have sub: "set (rank_first x) \<subseteq> of_nat ` {1..<Suc ?n}"
  proof
    fix v assume "v \<in> set (rank_first x)"
    then obtain i where i: "i < ?n" "v = rank_first x ! i"
      by (metis in_set_conv_nth rank_first_length)
    have "1 + card (before i) \<in> {1..<Suc ?n}" using bound[OF i(1)] by simp
    then show "v \<in> of_nat ` {1..<Suc ?n}" using i nth[OF i(1)] by blast
  qed
  have "card (set (rank_first x)) = ?n"
    using dist by (simp add: distinct_card rank_first_length)
  moreover have "card ((of_nat :: nat \<Rightarrow> rat) ` {1..<Suc ?n}) = ?n"
    by (simp add: card_image inj_on_def)
  ultimately have seteq: "set (rank_first x) = of_nat ` {1..<Suc ?n}"
    using sub by (intro card_subset_eq) simp_all
  show ?thesis
  proof (rule sorted_distinct_set_unique)
    show "sorted (sort (rank_first x))" by simp
    show "distinct (sort (rank_first x))" using dist by simp
    show "sorted (map (of_nat :: nat \<Rightarrow> rat) [1..<Suc ?n])"
      by (simp add: sorted_map del: upt_Suc)
    show "distinct (map (of_nat :: nat \<Rightarrow> rat) [1..<Suc ?n])"
      by (simp add: distinct_map inj_on_def del: upt_Suc)
    show "set (sort (rank_first x)) = set (map (of_nat :: nat \<Rightarrow> rat) [1..<Suc ?n])"
      using seteq by (simp del: upt_Suc)
  qed
qed

lemma quantile_ranks:
  assumes s: "sort r = map of_nat [1..<Suc n]" and n: "1 \<le> n" and q: "0 \<le> q" "q \<le> 1"
  shows "quantile r q = 1 + q * of_nat (n - 1)"
proof -
  have len: "length (sort r) = n" using s by simp
  define h where "h = q * of_nat (n - 1)"
  define lo where "lo = nat \<lfloor>h\<rfloor>"
  have h0: "0 \<le> h" using q(1) by (simp add: h_def)
  have "q * of_nat (n - 1) \<le> 1 * of_nat (n - 1)" using q(2) by (intro mult_right_mono) simp_all
  then have h1: "h \<le> of_nat (n - 1)" by (simp add: h_def)
  have fl: "0 \<le> \<lfloor>h\<rfloor>" using h0 by simp
  then have lo_int: "(of_nat lo :: rat) = of_int \<lfloor>h\<rfloor>" by (simp add: lo_def)
  have lo_le: "of_nat lo \<le> h" and lo_gt: "h < of_nat lo + 1"
    unfolding lo_int by linarith+
  from lo_le h1 have "(of_nat lo :: rat) \<le> of_nat (n - 1)" by linarith
  then have lo_n: "lo \<le> n - 1" by simp
  have nth: "sort r ! k = of_nat (k + 1)" if "k < n" for k
    using that by (simp add: s del: upt_Suc)
  have unfold: "quantile r q = sort r ! lo + (h - of_nat lo) * (sort r ! min (lo + 1) (n - 1) - sort r ! lo)"
    unfolding quantile_def Let_def len h_def[symmetric] lo_def[symmetric] ..
  show ?thesis
  proof (cases "lo = n - 1")
    case True
    then have "h = of_nat lo" using lo_le h1 by simp
    moreover have "sort r ! lo = of_nat (lo + 1)" using True n by (intro nth) simp
    ultimately show ?thesis unfolding unfold h_def[symmetric] by simp
  next
    case False
    then have lt: "lo + 1 < n" using lo_n n by simp
    then have "min (lo + 1) (n - 1) = lo + 1" by simp
    moreover have "sort r ! lo = of_nat (lo + 1)" using lt by (intro nth) simp
    moreover have "sort r ! (lo + 1) = of_nat (lo + 1 + 1)" using lt by (intro nth)
    ultimately show ?thesis unfolding unfold h_def[symmetric] by simp
  qed
qed


lemma nunique_le_length: "nunique x \<le> length x"
  by (simp add: nunique_card card_length)

lemma qcut_rank_first_succeeds:
  fixes x :: "'a::linorder list"
  assumes n2: "2 \<le> length x" and lab: "distinct labels" "length labels = 5"
  shows "\<exists>ys. qcut (rank_first x) 5 labels dd = Inr ys \<and> length ys = length x
           \<and> (\<forall>y\<in>set ys. \<exists>i<length labels. y = Some (labels ! i))"
proof -
  let ?n = "length x"
  let ?r = "rank_first x"
  define bins where "bins = map (quantile ?r) (linspace 0 1 (5 + 1))"
  have rne: "?r \<noteq> []" using n2 by (auto simp: rank_first_def)
  have len: "length bins = 6" by (simp add: bins_def linspace_length)
  have lin: "linspace 0 1 6 ! k = of_nat k * (1 / 5)" if "k < 6" for k
    using that by (simp add: linspace_nth)
  have nth: "bins ! k = 1 + (of_nat k * (1 / 5)) * of_nat (?n - 1)" if k: "k < 6" for k
  proof -
    have "(of_nat k :: rat) \<le> 5" using k by simp
    then have q: "0 \<le> (of_nat k * (1 / 5) :: rat)" "(of_nat k * (1 / 5) :: rat) \<le> 1" by simp_all
    have "quantile ?r (of_nat k * (1 / 5)) = 1 + (of_nat k * (1 / 5)) * of_nat (?n - 1)"
      using n2 by (intro quantile_ranks[OF rank_first_sorted _ q]) simp
    then show ?thesis using k by (simp add: bins_def linspace_length lin)
  qed
  have pos: "(0 :: rat) < of_nat (?n - 1)" using n2 by simp
  have "bins ! i < bins ! k" if "i < k" "k < length bins" for i k
  proof -
    have "(of_nat i * (1 / 5) :: rat) < of_nat k * (1 / 5)" using that(1) by simp
    then have "(of_nat i * (1 / 5)) * of_nat (?n - 1) < (of_nat k * (1 / 5)) * (of_nat (?n - 1) :: rat)"
      using pos by (rule mult_strict_right_mono)
    moreover have "i < 6" "k < 6" using that len by simp_all
    ultimately show ?thesis by (simp only: nth)
  qed
  then have "sorted_wrt (<) bins" by (simp add: sorted_wrt_iff_nth_less)
  then have "distinct bins" by (simp add: strict_sorted_iff)
  from bins_to_cuts_distinct[OF this lab(1), of "map Some ?r" True dd]
  have run: "qcut ?r 5 labels dd = Inr (map (cut_one bins labels True) (map Some ?r))"
    using rne len lab(2) by (simp add: qcut_def bins_def)
  have "labels \<noteq> []" using lab(2) by auto
  from qcut_Inr_labels[OF run _ this] show ?thesis using run by (simp add: rank_first_length)
qed

lemma recency_fallback_example:
  "5 \<le> nunique [0, 0, 0, 0, 0, 0, 1, 2, 3, 4 :: int]
   \<and> qcut (map of_int [0, 0, 0, 0, 0, 0, 1, 2, 3, 4 :: int]) 5 [5, 4, 3, 2, 1 :: int] True = Inl ValueError"
  by code_simp

section \<open>The claims\<close>

text \<open>
  Claim C1. For each of recency, frequency and monetary: if the metric has fewer than
  five distinct values over the customers of the RFM table, every customer of the table
  has score 3 for that metric.
\<close>

theorem neutral_score_below_five_distinct:
  assumes "rfm_analysis orders payments start_date end_date = Inr (Rfm recs)"
  shows "(nunique (map recency recs) < 5 \<longrightarrow> (\<forall>r\<in>set recs. r_score r = Some 3))
       \<and> (nunique (map frequency recs) < 5 \<longrightarrow> (\<forall>r\<in>set recs. f_score r = Some 3))
       \<and> (nunique (map monetary recs) < 5 \<longrightarrow> (\<forall>r\<in>set recs. m_score r = Some 3))"
proof -
  let ?owp = "orders_with_payments orders payments start_date end_date"
  let ?rfm = "rfm_metrics ?owp end_date"
  have ne: "?owp \<noteq> []"
    using assms rfm_analysis_empty[of orders payments start_date end_date] by auto
  from rfm_analysis_scored[OF ne] assms
  have len: "length recs = length ?rfm"
    and row: "\<And>i. i < length ?rfm \<Longrightarrow>
       recency (recs ! i) = recency (?rfm ! i)
     \<and> frequency (recs ! i) = frequency (?rfm ! i)
     \<and> monetary (recs ! i) = monetary (?rfm ! i)
     \<and> (\<exists>a b c. r_score (recs ! i) = Some a \<and> f_score (recs ! i) = Some b
            \<and> m_score (recs ! i) = Some c
            \<and> (nunique (map recency ?rfm) < 5 \<longrightarrow> a = 3)
            \<and> (nunique (map frequency ?rfm) < 5 \<longrightarrow> b = 3)
            \<and> (nunique (map monetary ?rfm) < 5 \<longrightarrow> c = 3))"
    by auto
  have cols: "map recency recs = map recency ?rfm" "map frequency recs = map frequency ?rfm"
      "map monetary recs = map monetary ?rfm"
    using len row by (simp_all add: list_eq_iff_nth_eq)
  have "r_score r = Some 3" if "nunique (map recency recs) < 5" "r \<in> set recs" for r
  proof -
    from that(2) obtain i where i: "i < length recs" "r = recs ! i" by (metis in_set_conv_nth)
    then show ?thesis using row[of i] len that(1) cols(1) by auto
  qed
  moreover have "f_score r = Some 3" if "nunique (map frequency recs) < 5" "r \<in> set recs" for r
  proof -
    from that(2) obtain i where i: "i < length recs" "r = recs ! i" by (metis in_set_conv_nth)
    then show ?thesis using row[of i] len that(1) cols(2) by auto
  qed
  moreover have "m_score r = Some 3" if "nunique (map monetary recs) < 5" "r \<in> set recs" for r
  proof -
    from that(2) obtain i where i: "i < length recs" "r = recs ! i" by (metis in_set_conv_nth)
    then show ?thesis using row[of i] len that(1) cols(3) by auto
  qed
  ultimately show ?thesis by blast
qed

text \<open>
  The scenario of one customer with one delivered order of 100 in a one-point window:
  one distinct value per metric, and all three scores are 3.
\<close>

theorem neutral_score_single_customer:
  "rfm_analysis [delivered_order ''1'' ''A'' 0] [card_payment ''1'' 100] 0 0 =
     Inr (Rfm [\<lparr>rfm_customer_id = ''A'', recency = 0, frequency = 1, monetary = 100,
                r_score = Some 3, f_score = Some 3, m_score = Some 3,
                rfm_score = Some 9, segment = Some ''Gold''\<rparr>])
   \<and> nunique [0 :: int] < 5 \<and> nunique [1 :: int] < 5 \<and> nunique [100 :: rat] < 5
   \<and> r_score \<lparr>rfm_customer_id = ''A'', recency = 0, frequency = 1, monetary = 100,
                r_score = Some 3, f_score = Some 3, m_score = Some 3,
                rfm_score = Some 9, segment = Some ''Gold''\<rparr> = Some 3"
proof -
  have run: "rfm_analysis [delivered_order ''1'' ''A'' 0] [card_payment ''1'' 100] 0 0 =
     Inr (Rfm [\<lparr>rfm_customer_id = ''A'', recency = 0, frequency = 1, monetary = 100,
                r_score = Some 3, f_score = Some 3, m_score = Some 3,
                rfm_score = Some 9, segment = Some ''Gold''\<rparr>])"
    by code_simp
  have few: "nunique [0 :: int] < 5" "nunique [1 :: int] < 5" "nunique [100 :: rat] < 5"
    by (simp_all add: nunique_def unique_def)
  from neutral_score_below_five_distinct[OF run] few run show ?thesis by simp
qed

text \<open>
  Claim C2. The segment is a function of the composite score alone, with fixed
  thresholds: 0 to 4 is Bronze, above 4 to 8 Silver, above 8 to 12 Gold, above 12 to 15
  Platinum; three scores of 3 add up to 9, which is Gold.
\<close>

theorem segment_thresholds:
  "segment_col cs = Inr (map (\<lambda>v. case v of None \<Rightarrow> None | Some c \<Rightarrow> segment_of c) cs)
   \<and> (0 \<le> c \<and> c \<le> 4 \<longrightarrow> segment_col [Some c] = Inr [Some ''Bronze''])
   \<and> (4 < c \<and> c \<le> 8 \<longrightarrow> segment_col [Some c] = Inr [Some ''Silver''])
   \<and> (8 < c \<and> c \<le> 12 \<longrightarrow> segment_col [Some c] = Inr [Some ''Gold''])
   \<and> (12 < c \<and> c \<le> 15 \<longrightarrow> segment_col [Some c] = Inr [Some ''Platinum''])
   \<and> segment_col [add_score (add_score (Some 3) (Some 3)) (Some 3)] = Inr [Some ''Gold'']"
  by (simp add: segment_col_eq segment_of_def add_score_def)

theorem composite_nine_is_gold:
  "(8 :: int) < 9 \<and> (9 :: int) \<le> 12 \<and> segment_col [Some 9] = Inr [Some ''Gold'']"
  using segment_thresholds[of "[]" 9] by simp

text \<open>
  Claim C3. Every row of the RFM table has three scores whose sum is the composite
  score, an integer from 3 to 15; the analysis always returns.
\<close>

theorem composite_score_range:
  "\<exists>t. rfm_analysis orders payments start_date end_date = Inr t
     \<and> (\<forall>r\<in>set (rfm_rows t). \<exists>a b c.
           r_score r = Some a \<and> f_score r = Some b \<and> m_score r = Some c
         \<and> rfm_score r = Some (a + b + c) \<and> 3 \<le> a + b + c \<and> a + b + c \<le> 15)"
proof (cases "orders_with_payments orders payments start_date end_date = []")
  case True
  then show ?thesis by (simp add: rfm_analysis_empty)
next
  case False
  let ?rfm = "rfm_metrics (orders_with_payments orders payments start_date end_date) end_date"
  from rfm_analysis_scored[OF False] obtain recs where
    run: "rfm_analysis orders payments start_date end_date = Inr (Rfm recs)"
    and len: "length recs = length ?rfm"
    and row: "\<And>i. i < length ?rfm \<Longrightarrow>
       (\<exists>a b c. r_score (recs ! i) = Some a \<and> f_score (recs ! i) = Some b
            \<and> m_score (recs ! i) = Some c
            \<and> 1 \<le> a \<and> a \<le> 5 \<and> 1 \<le> b \<and> b \<le> 5 \<and> 1 \<le> c \<and> c \<le> 5
            \<and> rfm_score (recs ! i) = Some (a + b + c))"
    by blast
  have "\<exists>a b c. r_score r = Some a \<and> f_score r = Some b \<and> m_score r = Some c
         \<and> rfm_score r = Some (a + b + c) \<and> 3 \<le> a + b + c \<and> a + b + c \<le> 15"
    if "r \<in> set recs" for r
  proof -
    from that obtain i where i: "i < length recs" "r = recs ! i" by (metis in_set_conv_nth)
    with row[of i] len obtain a b c where
      "r_score r = Some a" "f_score r = Some b" "m_score r = Some c"
      "1 \<le> a" "a \<le> 5" "1 \<le> b" "b \<le> 5" "1 \<le> c" "c \<le> 5" "rfm_score r = Some (a + b + c)"
      by auto
    then show ?thesis by (intro exI[of _ a] exI[of _ b] exI[of _ c]) simp
  qed
  then show ?thesis using run by simp
qed

text \<open>
  Five customers with five distinct recencies and payments go through the quantile cut;
  the table has five rows, and the first one's composite score is within 3 and 15.
\<close>

theorem composite_score_five_customers:
  "\<exists>t. rfm_analysis five_orders five_payments 0 345600 = Inr t
     \<and> length (rfm_rows t) = 5
     \<and> (\<exists>a b c. rfm_score (hd (rfm_rows t)) = Some (a + b + c) \<and> 3 \<le> a + b + c \<and> a + b + c \<le> 15)"
proof -
  have run: "map rfm_score (case rfm_analysis five_orders five_payments 0 345600 of
                Inr t \<Rightarrow> rfm_rows t | Inl e \<Rightarrow> []) = [Some 5, Some 7, Some 9, Some 11, Some 13]"
    by code_simp
  from composite_score_range[of five_orders five_payments 0 345600] obtain t where
    t: "rfm_analysis five_orders five_payments 0 345600 = Inr t"
    and all: "\<forall>r\<in>set (rfm_rows t). \<exists>a b c.
           r_score r = Some a \<and> f_score r = Some b \<and> m_score r = Some c
         \<and> rfm_score r = Some (a + b + c) \<and> 3 \<le> a + b + c \<and> a + b + c \<le> 15"
    by blast
  from run t have "map rfm_score (rfm_rows t) = [Some 5, Some 7, Some 9, Some 11, Some 13]"
    by simp
  from arg_cong[OF this, of length] have len: "length (rfm_rows t) = 5" by simp
  then have "hd (rfm_rows t) \<in> set (rfm_rows t)" by (intro hd_in_set) auto
  with all len t show ?thesis by blast
qed

text \<open>
  Claim C4. The day difference between actual and estimated delivery falls into exactly
  one of five bins: at most -3 is Very Early, above -3 to -1 Early, above -1 to 0 On Time,
  above 0 to 2 Late, above 2 Very Late. Every order kept for the delivery analysis has
  such a difference; -5, 0, 1 and 5 days are Very Early, On Time, Late and Very Late.
\<close>

theorem delivery_status_bins:
  "delivery_status ds = Inr (map (map_option (\<lambda>d.
       if d \<le> - 3 then ''Very Early''
       else if d \<le> - 1 then ''Early''
       else if d \<le> 0 then ''On Time''
       else if d \<le> 2 then ''Late'' else ''Very Late'')) ds)
   \<and> (\<forall>ord\<in>set (delivery_data orders start_date end_date).
        \<exists>actual estimated.
          order_delivered_customer_date ord = Some actual
        \<and> order_estimated_delivery_date ord = Some estimated
        \<and> delivery_difference ord = Some (days (actual - estimated)))
   \<and> delivery_status [Some (- 5), Some 0, Some 1, Some 5] =
        Inr [Some ''Very Early'', Some ''On Time'', Some ''Late'', Some ''Very Late'']"
proof -
  have cut: "delivery_status xs = Inr (map (map_option (\<lambda>d.
       if d \<le> - 3 then ''Very Early''
       else if d \<le> - 1 then ''Early''
       else if d \<le> 0 then ''On Time''
       else if d \<le> 2 then ''Late'' else ''Very Late'')) xs)" for xs
    by (simp add: delivery_status_def pd_cut_bins_def bins_to_cuts_def unique_def cut_one_def
          searchsorted_def less_ext_def Let_def map_option_case split: option.splits)
  have rows: "\<forall>ord\<in>set (delivery_data orders start_date end_date).
        \<exists>actual estimated.
          order_delivered_customer_date ord = Some actual
        \<and> order_estimated_delivery_date ord = Some estimated
        \<and> delivery_difference ord = Some (days (actual - estimated))"
    by (auto simp: delivery_data_def delivery_difference_def)
  show ?thesis using cut[of ds] cut[of "[Some (- 5), Some 0, Some 1, Some 5]"] rows by simp
qed

text \<open>
  An order delivered five days ahead of the estimate is kept and is Very Early.
\<close>

theorem delivery_five_days_early:
  "delivery_data
     [\<lparr>order_id = ''1'', customer_id = ''A'', order_status = ''delivered'',
       order_purchase_timestamp = Some 0, order_delivered_customer_date = Some 432000,
       order_estimated_delivery_date = Some 864000\<rparr>] 0 0 \<noteq> []
   \<and> delivery_status (map delivery_difference (delivery_data
     [\<lparr>order_id = ''1'', customer_id = ''A'', order_status = ''delivered'',
       order_purchase_timestamp = Some 0, order_delivered_customer_date = Some 432000,
       order_estimated_delivery_date = Some 864000\<rparr>] 0 0)) = Inr [Some ''Very Early'']"
  using delivery_status_bins[of "map delivery_difference (delivery_data
     [\<lparr>order_id = ''1'', customer_id = ''A'', order_status = ''delivered'',
       order_purchase_timestamp = Some 0, order_delivered_customer_date = Some 432000,
       order_estimated_delivery_date = Some 864000\<rparr>] 0 0)"
     "[\<lparr>order_id = ''1'', customer_id = ''A'', order_status = ''delivered'',
       order_purchase_timestamp = Some 0, order_delivered_customer_date = Some 432000,
       order_estimated_delivery_date = Some 864000\<rparr>]" 0 0]
  by (simp add: delivery_data_def in_window_def delivery_difference_def days_def)

text \<open>
  Claim C5. The date filter, with or without the status test, returns orders of its
  input only, each with a purchase timestamp between start and end inclusive; when start
  is after end it returns no order, and raises nothing.
\<close>

theorem date_filter_window:
  "set (filtered_orders orders start_date end_date) \<subseteq> set orders
   \<and> (\<forall>ord\<in>set (filtered_orders orders start_date end_date).
         \<exists>t. order_purchase_timestamp ord = Some t \<and> start_date \<le> t \<and> t \<le> end_date)
   \<and> set (filtered_orders_rfm orders start_date end_date) \<subseteq> set orders
   \<and> (\<forall>ord\<in>set (filtered_orders_rfm orders start_date end_date).
         \<exists>t. order_purchase_timestamp ord = Some t \<and> start_date \<le> t \<and> t \<le> end_date)
   \<and> (end_date < start_date \<longrightarrow>
         filtered_orders orders start_date end_date = []
       \<and> filtered_orders_rfm orders start_date end_date = [])"
  by (auto simp: filtered_orders_def filtered_orders_rfm_def in_window_def filter_empty_conv
        split: option.splits)

text \<open>
  A window that ends before it starts keeps nothing; a window around the order keeps it.
\<close>

theorem date_filter_reversed_window:
  "(5 :: int) < 10
   \<and> filtered_orders [delivered_order ''1'' ''A'' 7] 10 5 = []
   \<and> filtered_orders_rfm [delivered_order ''1'' ''A'' 7] 10 5 = []
   \<and> filtered_orders [delivered_order ''1'' ''A'' 7] 5 10 = [delivered_order ''1'' ''A'' 7]"
proof -
  have "filtered_orders [delivered_order ''1'' ''A'' 7] 5 10 = [delivered_order ''1'' ''A'' 7]"
    by (simp add: filtered_orders_def in_window_def)
  then show ?thesis using date_filter_window[of "[delivered_order ''1'' ''A'' 7]" 10 5] by simp
qed

text \<open>
  Claim C9. When no delivered order of the window has a payment, the grouping yields no
  row, tab 2 reports the warning that RFM analysis is not available, there is no RFM
  row, and nothing is raised; the payment summary of no payment is empty as well.
\<close>

theorem empty_population_is_warning:
  assumes "orders_with_payments orders payments start_date end_date = []"
  shows "rfm_analysis orders payments start_date end_date = Inr Warning
       \<and> rfm_rows Warning = []
       \<and> rfm_metrics (orders_with_payments orders payments start_date end_date) end_date = []
       \<and> payment_summary [] = []"
  using assms by (simp add: rfm_analysis_def rfm_metrics_def payment_summary_def)

text \<open>An order outside the window leaves the population empty.\<close>

theorem empty_population_outside_window:
  "orders_with_payments [delivered_order ''1'' ''A'' 0] [card_payment ''1'' 100] 10 20 = []
   \<and> rfm_analysis [delivered_order ''1'' ''A'' 0] [card_payment ''1'' 100] 10 20 = Inr Warning"
proof -
  have e: "orders_with_payments [delivered_order ''1'' ''A'' 0] [card_payment ''1'' 100] 10 20 = []"
    by code_simp
  from empty_population_is_warning[OF e] e show ?thesis by simp
qed

text \<open>
  Claim C10. The ranks of a column of n values are n distinct numbers. With at least
  five distinct frequencies, respectively payments, the quantile cut of the ranks returns
  scores from 1 to 5 and the score column is that result, so the equal-width branch is
  not taken. Recency is cut on its raw values: six customers at recency 0 and one each
  at 1, 2, 3, 4 make the quantile cut raise, and the score then is the equal-width cut.
\<close>

theorem rank_quantile_cut_never_falls_back:
  fixes frequency_col :: "int list" and monetary_col :: "rat list"
  shows "distinct (rank_first frequency_col) \<and> length (rank_first frequency_col) = length frequency_col
   \<and> distinct (rank_first monetary_col) \<and> length (rank_first monetary_col) = length monetary_col
   \<and> (5 \<le> nunique frequency_col \<longrightarrow>
        (\<exists>fs. qcut (rank_first frequency_col) 5 [1, 2, 3, 4, 5 :: int] True = Inr fs
            \<and> f_score_col frequency_col = Inr fs
            \<and> length fs = length frequency_col
            \<and> (\<forall>y\<in>set fs. \<exists>v. y = Some v \<and> 1 \<le> v \<and> v \<le> 5)))
   \<and> (5 \<le> nunique monetary_col \<longrightarrow>
        (\<exists>ms. qcut (rank_first monetary_col) 5 [1, 2, 3, 4, 5 :: int] True = Inr ms
            \<and> m_score_col monetary_col = Inr ms
            \<and> length ms = length monetary_col
            \<and> (\<forall>y\<in>set ms. \<exists>v. y = Some v \<and> 1 \<le> v \<and> v \<le> 5)))
   \<and> 5 \<le> nunique [0, 0, 0, 0, 0, 0, 1, 2, 3, 4 :: int]
   \<and> qcut (map of_int [0, 0, 0, 0, 0, 0, 1, 2, 3, 4 :: int]) 5 [5, 4, 3, 2, 1 :: int] True = Inl ValueError
   \<and> r_score_col [0, 0, 0, 0, 0, 0, 1, 2, 3, 4] =
       pd_cut_n (map of_int [0, 0, 0, 0, 0, 0, 1, 2, 3, 4 :: int]) 5 [5, 4, 3, 2, 1] True"
proof -
  have dist: "distinct (rank_first x)" for x :: "'a::linorder list"
  proof -
    have "distinct (sort (rank_first x))"
      unfolding rank_first_sorted by (simp add: distinct_map inj_on_def del: upt_Suc)
    then show ?thesis by simp
  qed
  have cut: "\<exists>ys. qcut (rank_first x) 5 [1, 2, 3, 4, 5 :: int] True = Inr ys
            \<and> length ys = length x
            \<and> (\<forall>y\<in>set ys. \<exists>v. y = Some v \<and> 1 \<le> v \<and> v \<le> 5)"
    if "5 \<le> nunique x" for x :: "'a::linorder list"
  proof -
    have "2 \<le> length x" using that nunique_le_length[of x] by simp
    from qcut_rank_first_succeeds[OF this, of "[1, 2, 3, 4, 5 :: int]" True]
    obtain ys where ys: "qcut (rank_first x) 5 [1, 2, 3, 4, 5 :: int] True = Inr ys"
        "length ys = length x"
        "\<forall>y\<in>set ys. \<exists>i<length [1, 2, 3, 4, 5 :: int]. y = Some ([1, 2, 3, 4, 5] ! i)"
      by auto
    have "\<forall>y\<in>set ys. \<exists>v. y = Some v \<and> 1 \<le> v \<and> v \<le> 5"
      by (rule score_in_range[OF ys(3)]) simp
    with ys(1,2) show ?thesis by blast
  qed
  have f: "\<exists>fs. qcut (rank_first frequency_col) 5 [1, 2, 3, 4, 5 :: int] True = Inr fs
            \<and> f_score_col frequency_col = Inr fs
            \<and> length fs = length frequency_col
            \<and> (\<forall>y\<in>set fs. \<exists>v. y = Some v \<and> 1 \<le> v \<and> v \<le> 5)"
    if "5 \<le> nunique frequency_col"
  proof -
    from cut[OF that] obtain ys where ys: "qcut (rank_first frequency_col) 5 [1, 2, 3, 4, 5 :: int] True = Inr ys"
      "length ys = length frequency_col" "\<forall>y\<in>set ys. \<exists>v. y = Some v \<and> 1 \<le> v \<and> v \<le> 5" by blast
    have "f_score_col frequency_col = Inr ys" using that ys(1) by (simp add: f_score_col_def)
    with ys show ?thesis by blast
  qed
  have m: "\<exists>ms. qcut (rank_first monetary_col) 5 [1, 2, 3, 4, 5 :: int] True = Inr ms
            \<and> m_score_col monetary_col = Inr ms
            \<and> length ms = length monetary_col
            \<and> (\<forall>y\<in>set ms. \<exists>v. y = Some v \<and> 1 \<le> v \<and> v \<le> 5)"
    if "5 \<le> nunique monetary_col"
  proof -
    from cut[OF that] obtain ys where ys: "qcut (rank_first monetary_col) 5 [1, 2, 3, 4, 5 :: int] True = Inr ys"
      "length ys = length monetary_col" "\<forall>y\<in>set ys. \<exists>v. y = Some v \<and> 1 \<le> v \<and> v \<le> 5" by blast
    have "m_score_col monetary_col = Inr ys" using that ys(1) by (simp add: m_score_col_def)
    with ys show ?thesis by blast
  qed
  have r: "r_score_col [0, 0, 0, 0, 0, 0, 1, 2, 3, 4] =
       pd_cut_n (map of_int [0, 0, 0, 0, 0, 0, 1, 2, 3, 4 :: int]) 5 [5, 4, 3, 2, 1] True"
    using recency_fallback_example by (simp add: r_score_col_def)
  show ?thesis
    using dist[of frequency_col] dist[of monetary_col] f m r recency_fallback_example
    by (simp add: rank_first_length)
qed

text \<open>
  Ten customers, six of them with one order and the others with 2 to 5: five distinct
  frequencies, many ties, and the quantile cut of the ranks scores them all.
\<close>

theorem rank_quantile_cut_with_ties:
  "5 \<le> nunique [1, 1, 1, 1, 2, 3, 4, 5, 1, 1 :: int]
   \<and> (\<exists>fs. f_score_col [1, 1, 1, 1, 2, 3, 4, 5, 1, 1] = Inr fs \<and> length fs = 10)"
proof -
  have h: "5 \<le> nunique [1, 1, 1, 1, 2, 3, 4, 5, 1, 1 :: int]" by code_simp
  from rank_quantile_cut_never_falls_back[of "[1, 1, 1, 1, 2, 3, 4, 5, 1, 1]" "[]"] h
  obtain fs where "f_score_col [1, 1, 1, 1, 2, 3, 4, 5, 1, 1] = Inr fs"
      "length fs = length [1, 1, 1, 1, 2, 3, 4, 5, 1, 1 :: int]"
    by blast
  with h show ?thesis by auto
qed

text \<open>
  Claim C6, evaluated where the code departs from it. The translation file has no
  translated column, so the sidebar offers the native category names; choosing one
  makes the category filter of tab 1 read the missing column and raise, instead of
  keeping the items of that native category.
\<close>

theorem category_filter_without_translation:
  "categories untranslated_products = [''All Categories'', ''moveis'']
   \<and> category_filter [\<lparr>item_order_id = ''1'', product_id = ''p1'', price = 10\<rparr>]
        untranslated_products (selected_category ''moveis'') = Inl KeyError
   \<and> category_filter [\<lparr>item_order_id = ''1'', product_id = ''p1'', price = 10\<rparr>]
        untranslated_products (selected_category ''All Categories'') =
        Inr [\<lparr>item_order_id = ''1'', product_id = ''p1'', price = 10\<rparr>]"
  by code_simp

text \<open>
  Claim C8, evaluated where the code departs from it. The average order value is
  guarded and is 0 without orders. The percentage of the payment summary divides by the
  grand total unguarded: one voucher payment of value 0 gives 0 / 0, which is NaN.
\<close>

theorem payment_percentage_of_zero_total:
  "avg_order_value [] = 0
   \<and> payment_summary (payment_data [delivered_order ''1'' ''A'' 0]
        [\<lparr>pay_order_id = ''1'', payment_type = ''voucher'', payment_value = 0\<rparr>] 0 0) =
       [\<lparr>summary_payment_type = ''voucher'', total_value = 0, order_count = 1, percentage = None\<rparr>]"
  by code_simp

end
